theory Spec2Isabelle
  imports Main "HOL-Library.AList" "HOL-Library.Multiset"
begin

section \<open>Data model of the name-change handler\<close>

text \<open>
  The file \<^verbatim>\<open>handlers/contact_name_changed.go\<close> registers a handler for the
  contact-name-changed event and a commit hook that writes all queued name changes of a
  batch with one bulk statement. Sessions, events and hooks are heap objects in the Go
  code and are always passed as non-nil pointers there; the model identifies an object with
  its contents.
\<close>

text \<open>Go's \<^verbatim>\<open>error\<close> interface: \<open>None\<close> is \<^verbatim>\<open>nil\<close>.\<close>

type_synonym error = string

text \<open>The two run-time panics the file can raise.\<close>

datatype go_panic = IndexOutOfRange | TypeAssertionFailed

text \<open>
  \<^verbatim>\<open>events.ContactNameChangedEvent\<close> of the flow engine: the handler reads its
  \<^verbatim>\<open>Name\<close> field only; the remaining fields of the event live in the record's
  extension part.
\<close>

record ContactNameChangedEvent =
  Name :: string

text \<open>
  A value of interface type (\<^verbatim>\<open>flows.Event\<close>, \<^verbatim>\<open>interface{}\<close>) with
  its dynamic type: a pointer to a name-change event, or a value of some other dynamic
  type, of which only the type's name is kept.
\<close>

datatype dyn =
    ContactNameChangedEventPtr ContactNameChangedEvent
  | OtherValue string

text \<open>
  Commit hooks are compared by identity. \<^verbatim>\<open>commitContactNameChanges\<close> is the
  package-level singleton of this file; the other hooks of the repository are told apart by
  name.
\<close>

datatype EventCommitHook = CommitContactNameChanges | OtherHook string

definition commitContactNameChanges :: EventCommitHook where
  "commitContactNameChanges = CommitContactNameChanges"

text \<open>
  Modelled from the spec: the \<^verbatim>\<open>Session\<close> type of the \<^verbatim>\<open>models\<close>
  package is not among the sources. The spec (section 3) gives it an identity (session id,
  contact id and UUID) and a mapping from hook to an ordered sequence of opaque per-event
  data. The mapping is kept as an association list; a Go map holds each key once.
  The contact id is an integer no wider than 64 bits, so the conversion
  \<^verbatim>\<open>int64(s.ContactID)\<close> keeps its value.
\<close>

record Session =
  ID :: int
  ContactID :: int
  ContactUUID :: string
  preCommits :: "(EventCommitHook \<times> dyn list) list"

definition int64 :: "int \<Rightarrow> int" where
  "int64 v = v"

text \<open>
  \<^verbatim>\<open>type nameUpdate struct { ContactID int64 `db:"id"`; Name string `db:"name"` }\<close>,
  built positionally as in the source; the selectors carry the column tags.
\<close>

datatype nameUpdate = nameUpdate (db_id: int) (db_name: string)

text \<open>The statement text, with its line breaks and indentation written as single spaces.\<close>

definition updateContactNameSQL :: string where
  "updateContactNameSQL =
     ''UPDATE contacts_contact c SET name = r.name, modified_on = NOW() '' @
     ''FROM ( VALUES(:id, :name) ) AS r(id, name) WHERE c.id = r.id::int''"

section \<open>The commit hook\<close>

text \<open>
  Indexing a slice: Go checks the bounds and panics outside them. The index is a signed
  integer, so \<^verbatim>\<open>len(e)-1\<close> is \<open>-1\<close> for the empty slice.
\<close>

definition go_index :: "'a list \<Rightarrow> int \<Rightarrow> go_panic + 'a" where
  "go_index xs i =
     (if 0 \<le> i \<and> i < int (length xs) then Inr (xs ! nat i) else Inl IndexOutOfRange)"

text \<open>The unchecked type assertion \<^verbatim>\<open>x.(*events.ContactNameChangedEvent)\<close>.\<close>

fun assertContactNameChangedEvent :: "dyn \<Rightarrow> go_panic + ContactNameChangedEvent" where
  "assertContactNameChangedEvent (ContactNameChangedEventPtr event) = Inr event"
| "assertContactNameChangedEvent (OtherValue t) = Inl TypeAssertionFailed"

text \<open>
  The \<^verbatim>\<open>for s, e := range sessions\<close> loop of \<^verbatim>\<open>Apply\<close>. The map is given
  as the list of its entries in the order the run time happens to iterate them;
  \<open>updates\<close> is the slice built so far.
\<close>

fun Apply_loop :: "(Session \<times> dyn list) list \<Rightarrow> nameUpdate list \<Rightarrow> go_panic + nameUpdate list" where
  "Apply_loop [] updates = Inr updates"
| "Apply_loop ((s, e) # rest) updates =
     (case go_index e (int (length e) - 1) of
        Inl p \<Rightarrow> Inl p
      | Inr d \<Rightarrow>
          (case assertContactNameChangedEvent d of
             Inl p \<Rightarrow> Inl p
           | Inr event \<Rightarrow>
               Apply_loop rest (updates @ [nameUpdate (int64 (ContactID s)) (Name event)])))"

text \<open>
  \<^verbatim>\<open>models.BulkSQL\<close> is not among the sources: it is a parameter, a function from
  the label, the transaction, the statement and the rows to the returned error and the
  transaction afterwards. \<^verbatim>\<open>Apply\<close> does not use the cache pool or the org assets.
\<close>

type_synonym 'tx BulkSQL = "string \<Rightarrow> 'tx \<Rightarrow> string \<Rightarrow> nameUpdate list \<Rightarrow> error option \<times> 'tx"

definition Apply ::
  "'tx BulkSQL \<Rightarrow> 'tx \<Rightarrow> 'rp \<Rightarrow> 'org \<Rightarrow> (Session \<times> dyn list) list \<Rightarrow> go_panic + (error option \<times> 'tx)" where
  "Apply bulkSQL tx rp org sessions =
     (case Apply_loop sessions [] of
        Inl p \<Rightarrow> Inl p
      | Inr updates \<Rightarrow>
          Inr (bulkSQL ''updating contact name'' tx updateContactNameSQL updates))"

text \<open>
  A transaction that only records the \<^verbatim>\<open>BulkSQL\<close> calls made on it, each with its
  label, statement and rows.
\<close>

definition recordBulkSQL :: "(string \<times> string \<times> nameUpdate list) list BulkSQL" where
  "recordBulkSQL label tx sql vs = (None, tx @ [(label, sql, vs)])"

text \<open>The dynamic type test, and the sequences on which the loop body does not panic.\<close>

fun isContactNameChanged :: "dyn \<Rightarrow> bool" where
  "isContactNameChanged (ContactNameChangedEventPtr event) = True"
| "isContactNameChanged (OtherValue t) = False"

definition endsInNameChange :: "dyn list \<Rightarrow> bool" where
  "endsInNameChange e = (e \<noteq> [] \<and> isContactNameChanged (last e))"

text \<open>The name carried by a datum; the empty string stands for a datum that has none.\<close>

fun nameOf :: "dyn \<Rightarrow> string" where
  "nameOf (ContactNameChangedEventPtr event) = Name event"
| "nameOf (OtherValue t) = []"

definition lastNameUpdate :: "Session \<times> dyn list \<Rightarrow> nameUpdate" where
  "lastNameUpdate se = nameUpdate (ContactID (fst se)) (nameOf (last (snd se)))"

section \<open>The event handler\<close>

text \<open>
  Modelled from the spec: \<^verbatim>\<open>Session.AddPreCommitEvent\<close> of the
  \<^verbatim>\<open>models\<close> package is not among the sources. The spec (section 4.3):
  it appends the datum to the ordered sequence keyed by the hook for this session, and
  creates the sequence on first use.
\<close>

definition AddPreCommitEvent :: "Session \<Rightarrow> EventCommitHook \<Rightarrow> dyn \<Rightarrow> Session" where
  "AddPreCommitEvent s hook data =
     s\<lparr>preCommits :=
         AList.update hook
           ((case map_of (preCommits s) hook of None \<Rightarrow> [] | Some ds \<Rightarrow> ds) @ [data])
           (preCommits s)\<rparr>"

text \<open>The debug line the handler writes through the logger, with its three fields.\<close>

record logEntry =
  contact_uuid :: string
  session_id :: int
  name_field :: string
  message :: string

text \<open>
  \<^verbatim>\<open>applyContactNameChanged\<close>: the state it can reach is the transaction, the
  cache pool, the session and the log output; all four are returned, next to the error.
\<close>

definition applyContactNameChanged ::
  "'tx \<Rightarrow> 'rp \<Rightarrow> Session \<Rightarrow> dyn \<Rightarrow> logEntry list \<Rightarrow>
     go_panic + (error option \<times> 'tx \<times> 'rp \<times> Session \<times> logEntry list)" where
  "applyContactNameChanged tx rp session e logged =
     (case assertContactNameChangedEvent e of
        Inl p \<Rightarrow> Inl p
      | Inr event \<Rightarrow>
          Inr (None, tx, rp,
               AddPreCommitEvent session commitContactNameChanges (ContactNameChangedEventPtr event),
               logged @ [\<lparr>contact_uuid = ContactUUID session, session_id = ID session,
                           name_field = Name event, message = ''changing contact name''\<rparr>]))"

section \<open>The batch committer\<close>

text \<open>
  Modelled from the spec: the batch committer (\<^verbatim>\<open>ProcessBatch\<close>, the dispatcher
  and the grouping) belongs to the \<^verbatim>\<open>models\<close> package, which is not among the
  sources. The definitions of this section follow sections 4.2 and 4.5 of the spec.
  An event is a pair of its type identifier and its payload. A handler and a hook act on
  the open transaction and return an error or \<open>None\<close>.
\<close>

type_synonym 'tx handler = "'tx \<Rightarrow> Session \<Rightarrow> dyn \<Rightarrow> error option \<times> 'tx \<times> Session"

type_synonym grouping = "(EventCommitHook \<times> (Session \<times> dyn list) list) list"

type_synonym 'tx hookApply =
  "EventCommitHook \<Rightarrow> 'tx \<Rightarrow> (Session \<times> dyn list) list \<Rightarrow> error option \<times> 'tx"

text \<open>
  Modelled from the spec: \<^verbatim>\<open>Dispatch\<close> (section 4.2) looks the handler of the
  event's type up; a missing handler is an error that aborts the batch, otherwise the
  handler runs synchronously.
\<close>

definition Dispatch ::
  "(string \<Rightarrow> 'tx handler option) \<Rightarrow> 'tx \<Rightarrow> Session \<Rightarrow> string \<times> dyn \<Rightarrow> error option \<times> 'tx \<times> Session" where
  "Dispatch registry tx session ev =
     (case registry (fst ev) of
        None \<Rightarrow> (Some (''no handler for event type '' @ fst ev), tx, session)
      | Some h \<Rightarrow> h tx session (snd ev))"

text \<open>
  Modelled from the spec: the dispatching state (section 4.5) calls the dispatcher for
  every (session, event) pair in submission order; the first failure aborts the batch.
\<close>

fun dispatchEvents ::
  "(string \<Rightarrow> 'tx handler option) \<Rightarrow> 'tx \<Rightarrow> Session \<Rightarrow> (string \<times> dyn) list \<Rightarrow> error option \<times> 'tx \<times> Session" where
  "dispatchEvents registry tx session [] = (None, tx, session)"
| "dispatchEvents registry tx session (ev # evs) =
     (case Dispatch registry tx session ev of
        (Some err, tx', session') \<Rightarrow> (Some err, tx', session')
      | (None, tx', session') \<Rightarrow> dispatchEvents registry tx' session' evs)"

fun dispatchAll ::
  "(string \<Rightarrow> 'tx handler option) \<Rightarrow> 'tx \<Rightarrow> (Session \<times> (string \<times> dyn) list) list \<Rightarrow>
     error option \<times> 'tx \<times> Session list" where
  "dispatchAll registry tx [] = (None, tx, [])"
| "dispatchAll registry tx ((session, evs) # rest) =
     (case dispatchEvents registry tx session evs of
        (Some err, tx', session') \<Rightarrow> (Some err, tx', [])
      | (None, tx', session') \<Rightarrow>
          (case dispatchAll registry tx' rest of
             (err, tx'', sessions) \<Rightarrow> (err, tx'', session' # sessions)))"

text \<open>
  Modelled from the spec: \<^verbatim>\<open>PreCommitEvents\<close> (section 4.3) hands out the
  session's mapping from hook to sequence.
\<close>

definition PreCommitEvents :: "Session \<Rightarrow> (EventCommitHook \<times> dyn list) list" where
  "PreCommitEvents s = preCommits s"

text \<open>
  Modelled from the spec: the grouping state (section 4.5) inverts every session's
  pre-commit mapping into one mapping from hook to a mapping from session to sequence, as
  an in-memory fold over the sessions and, for each, over its hooks.
\<close>

definition groupEntry :: "Session \<Rightarrow> EventCommitHook \<times> dyn list \<Rightarrow> grouping \<Rightarrow> grouping" where
  "groupEntry s entry g =
     AList.update (fst entry)
       (AList.update s (snd entry) (case map_of g (fst entry) of None \<Rightarrow> [] | Some m \<Rightarrow> m))
       g"

definition groupSession :: "Session \<Rightarrow> grouping \<Rightarrow> grouping" where
  "groupSession s g = fold (groupEntry s) (PreCommitEvents s) g"

definition Grouping :: "Session list \<Rightarrow> grouping" where
  "Grouping sessions = fold groupSession sessions []"

text \<open>
  Modelled from the spec: the committing state (section 4.5) calls \<^verbatim>\<open>Apply\<close>
  for each hook present in the grouping and stops at the first error.
\<close>

fun applyHooks :: "'tx hookApply \<Rightarrow> grouping \<Rightarrow> 'tx \<Rightarrow> error option \<times> 'tx" where
  "applyHooks hookApply [] tx = (None, tx)"
| "applyHooks hookApply ((hook, args) # rest) tx =
     (case hookApply hook tx args of
        (Some err, tx') \<Rightarrow> (Some err, tx')
      | (None, tx') \<Rightarrow> applyHooks hookApply rest tx')"

text \<open>
  Modelled from the spec: \<^verbatim>\<open>ProcessBatch\<close> (sections 2, 4.5 and 6). The
  transaction works on a private copy of the store; committing makes the copy the store,
  rolling back keeps the store as it was. The result is the error and the store afterwards.
\<close>

definition ProcessBatch ::
  "(string \<Rightarrow> 'tx handler option) \<Rightarrow> 'tx hookApply \<Rightarrow> 'tx \<Rightarrow> (Session \<times> (string \<times> dyn) list) list \<Rightarrow>
     error option \<times> 'tx" where
  "ProcessBatch registry hookApply db sessionsWithEvents =
     (case dispatchAll registry db sessionsWithEvents of
        (Some err, tx, sessions) \<Rightarrow> (Some err, db)
      | (None, tx, sessions) \<Rightarrow>
          (case applyHooks hookApply (Grouping sessions) tx of
             (Some err, tx') \<Rightarrow> (Some err, db)
           | (None, tx') \<Rightarrow> (None, tx')))"

text \<open>
  What the atomicity invariant of section 3 asks of a committed batch: every hook's bulk
  operation succeeded, one after the other, each on the transaction its predecessor left.
\<close>

inductive allHooksApplied :: "'tx hookApply \<Rightarrow> grouping \<Rightarrow> 'tx \<Rightarrow> 'tx \<Rightarrow> bool" where
  allHooksApplied_Nil: "allHooksApplied hookApply [] tx tx"
| allHooksApplied_Cons:
    "hookApply hook tx args = (None, tx') \<Longrightarrow> allHooksApplied hookApply rest tx' tx'' \<Longrightarrow>
       allHooksApplied hookApply ((hook, args) # rest) tx tx''"

text \<open>A hook implementation that only records its invocations on the transaction.\<close>

definition recordApply :: "grouping hookApply" where
  "recordApply hook tx args = (None, tx @ [(hook, args)])"

text \<open>The hooks a session queued events for, and the well-formedness of its mapping.\<close>

definition queuedHooks :: "Session \<Rightarrow> EventCommitHook set" where
  "queuedHooks s = fst ` set (preCommits s)"

definition wellFormedSession :: "Session \<Rightarrow> bool" where
  "wellFormedSession s = distinct (map fst (preCommits s))"

text \<open>Queuing a list of (hook, datum) pairs in submission order.\<close>

definition queueAll :: "Session \<Rightarrow> (EventCommitHook \<times> dyn) list \<Rightarrow> Session" where
  "queueAll s evs = fold (\<lambda>ev s'. AddPreCommitEvent s' (fst ev) (snd ev)) evs s"

definition submittedUnder :: "EventCommitHook \<Rightarrow> (EventCommitHook \<times> dyn) list \<Rightarrow> dyn list" where
  "submittedUnder hook evs = map snd (filter (\<lambda>ev. fst ev = hook) evs)"

text \<open>
  The sequence a session holds under a hook (empty when the hook has no entry), and the
  sequence the grouping holds for a hook and a session.
\<close>

definition queuedUnder :: "Session \<Rightarrow> EventCommitHook \<Rightarrow> dyn list" where
  "queuedUnder s hook = (case map_of (preCommits s) hook of None \<Rightarrow> [] | Some ds \<Rightarrow> ds)"

definition groupedFor :: "grouping \<Rightarrow> EventCommitHook \<Rightarrow> Session \<Rightarrow> dyn list option" where
  "groupedFor g hook s = (case map_of g hook of None \<Rightarrow> None | Some m \<Rightarrow> map_of m s)"


section \<open>The bulk statement\<close>

text \<open>
  The table \<^verbatim>\<open>contacts_contact\<close>, as far as \<^verbatim>\<open>updateContactNameSQL\<close>
  names it: the columns \<^verbatim>\<open>id\<close>, \<^verbatim>\<open>name\<close> and \<^verbatim>\<open>modified_on\<close>.
  All other columns of a row are the record's extension part. A table is the list of its
  rows.
\<close>

record 'ts contacts_contact =
  row_id :: int
  row_name :: string
  row_modified_on :: 'ts





section \<open>Example values\<close>

definition session1 :: Session where
  "session1 = \<lparr>ID = 1, ContactID = 10, ContactUUID = ''c10'', preCommits = []\<rparr>"

definition session2 :: Session where
  "session2 = \<lparr>ID = 2, ContactID = 20, ContactUUID = ''c20'', preCommits = []\<rparr>"

definition nameChange :: "string \<Rightarrow> dyn" where
  "nameChange n = ContactNameChangedEventPtr \<lparr>Name = n\<rparr>"

text \<open>
  The sessions of the grouping example of the spec (section 8): both queued events for the
  name-change hook, the first also for a second hook.
\<close>

definition sessionA :: Session where
  "sessionA = session1\<lparr>preCommits :=
      [(commitContactNameChanges, [nameChange ''A'', nameChange ''B'']), (OtherHook ''H2'', [OtherValue ''x''])]\<rparr>"

definition sessionB :: Session where
  "sessionB = session2\<lparr>preCommits := [(commitContactNameChanges, [nameChange ''C''])]\<rparr>"

text \<open>
  Hooks acting on a store that lists the writes made: the name-change hook succeeds, every
  other hook fails after a partial write. No handler is registered.
\<close>

definition exampleApply :: "string list hookApply" where
  "exampleApply hook tx args =
     (if hook = commitContactNameChanges then (None, tx @ [''names updated''])
      else (Some ''constraint violation'', tx @ [''partial write'']))"

definition emptyRegistry :: "string \<Rightarrow> string list handler option" where
  "emptyRegistry eventType = None"



section \<open>Properties of the commit hook\<close>

lemma go_index_last:
  "e \<noteq> [] \<Longrightarrow> go_index e (int (length e) - 1) = Inr (last e)"
  by (simp add: go_index_def last_conv_nth nat_diff_distrib')

lemma Apply_loop_step:
  "endsInNameChange e \<Longrightarrow>
     Apply_loop ((s, e) # rest) updates = Apply_loop rest (updates @ [lastNameUpdate (s, e)])"
  by (cases "last e") (simp_all add: endsInNameChange_def go_index_last lastNameUpdate_def int64_def)

lemma Apply_loop_wellformed:
  "\<forall>se \<in> set sessions. endsInNameChange (snd se) \<Longrightarrow>
     Apply_loop sessions updates = Inr (updates @ map lastNameUpdate sessions)"
proof (induction sessions arbitrary: updates)
  case Nil
  then show ?case by simp
next
  case (Cons se sessions)
  obtain s e where se: "se = (s, e)" by (cases se)
  from Cons.prems have e: "endsInNameChange e"
    and rest: "\<forall>x \<in> set sessions. endsInNameChange (snd x)"
    by (simp_all add: se)
  have "Apply_loop (se # sessions) updates = Apply_loop sessions (updates @ [lastNameUpdate se])"
    unfolding se by (rule Apply_loop_step [OF e])
  also have "\<dots> = Inr ((updates @ [lastNameUpdate se]) @ map lastNameUpdate sessions)"
    by (rule Cons.IH [OF rest])
  finally show ?case by simp
qed

lemma Apply_loop_append:
  "\<forall>se \<in> set pre. endsInNameChange (snd se) \<Longrightarrow>
     Apply_loop (pre @ rest) updates = Apply_loop rest (updates @ map lastNameUpdate pre)"
proof (induction pre arbitrary: updates)
  case Nil
  then show ?case by simp
next
  case (Cons se pre)
  obtain s e where se: "se = (s, e)" by (cases se)
  from Cons.prems have e: "endsInNameChange e"
    and rest: "\<forall>x \<in> set pre. endsInNameChange (snd x)"
    by (simp_all add: se)
  have "Apply_loop ((se # pre) @ rest) updates = Apply_loop (pre @ rest) (updates @ [lastNameUpdate se])"
    unfolding se append_Cons by (rule Apply_loop_step [OF e])
  also have "\<dots> = Apply_loop rest ((updates @ [lastNameUpdate se]) @ map lastNameUpdate pre)"
    by (rule Cons.IH [OF rest])
  finally show ?case by simp
qed

lemma Apply_loop_empty_seq:
  "Apply_loop ((s, []) # rest) updates = Inl IndexOutOfRange"
  by (simp add: go_index_def)

lemma Apply_loop_other_type:
  "e \<noteq> [] \<Longrightarrow> \<not> isContactNameChanged (last e) \<Longrightarrow>
     Apply_loop ((s, e) # rest) updates = Inl TypeAssertionFailed"
  by (cases "last e") (simp_all add: go_index_last)

lemma Apply_loop_ill_formed:
  "\<not> endsInNameChange e \<Longrightarrow>
     Apply_loop ((s, e) # rest) updates =
       Inl (if e = [] then IndexOutOfRange else TypeAssertionFailed)"
  by (cases "e = []") (simp_all add: endsInNameChange_def Apply_loop_empty_seq Apply_loop_other_type del: Apply_loop.simps)

lemma Apply_loop_first_ill_formed:
  assumes "\<forall>se \<in> set pre. endsInNameChange (snd se)" and "\<not> endsInNameChange e"
  shows "Apply_loop (pre @ (s, e) # rest) updates =
           Inl (if e = [] then IndexOutOfRange else TypeAssertionFailed)"
  by (simp only: Apply_loop_append [OF assms(1)] Apply_loop_ill_formed [OF assms(2)])

lemma Apply_loop_panics:
  assumes "\<exists>se \<in> set sessions. \<not> endsInNameChange (snd se)"
  shows "\<exists>p. Apply_loop sessions updates = Inl p"
proof -
  from assms obtain pre se rest where
    split: "sessions = pre @ se # rest" and bad: "\<not> endsInNameChange (snd se)"
    and pre: "\<forall>x \<in> set pre. endsInNameChange (snd x)"
    using split_list_first_prop [of sessions "\<lambda>se. \<not> endsInNameChange (snd se)"] by auto
  obtain s e where se: "se = (s, e)" by (cases se)
  show ?thesis
    using Apply_loop_first_ill_formed [OF pre, of e s rest updates] bad
    by (simp add: split se)
qed

lemma Apply_loop_returns_iff:
  "(\<exists>us. Apply_loop sessions updates = Inr us) \<longleftrightarrow> (\<forall>se \<in> set sessions. endsInNameChange (snd se))"
proof
  assume ret: "\<exists>us. Apply_loop sessions updates = Inr us"
  show "\<forall>se \<in> set sessions. endsInNameChange (snd se)"
  proof (rule ccontr)
    assume "\<not> (\<forall>se \<in> set sessions. endsInNameChange (snd se))"
    then have "\<exists>se \<in> set sessions. \<not> endsInNameChange (snd se)" by simp
    then obtain p where "Apply_loop sessions updates = Inl p"
      using Apply_loop_panics by blast
    with ret show False by simp
  qed
next
  assume "\<forall>se \<in> set sessions. endsInNameChange (snd se)"
  then show "\<exists>us. Apply_loop sessions updates = Inr us"
    by (simp add: Apply_loop_wellformed)
qed

lemma Apply_returns:
  "\<forall>se \<in> set sessions. endsInNameChange (snd se) \<Longrightarrow>
     Apply bulkSQL tx rp org sessions =
       Inr (bulkSQL ''updating contact name'' tx updateContactNameSQL (map lastNameUpdate sessions))"
  by (simp add: Apply_def Apply_loop_wellformed)

lemma Apply_returns_iff:
  "(\<exists>r. Apply bulkSQL tx rp org sessions = Inr r) \<longleftrightarrow>
     (\<forall>se \<in> set sessions. endsInNameChange (snd se))"
  using Apply_loop_returns_iff [of sessions "[]"]
  by (auto simp: Apply_def split: sum.splits)


lemma lastNameUpdate_event:
  "endsInNameChange e \<Longrightarrow>
     \<exists>event. last e = ContactNameChangedEventPtr event \<and>
       lastNameUpdate (s, e) = nameUpdate (ContactID s) (Name event)"
  by (cases "last e") (simp_all add: endsInNameChange_def lastNameUpdate_def)

lemma last_of_all_name_changes:
  "e \<noteq> [] \<Longrightarrow> list_all isContactNameChanged e \<Longrightarrow> endsInNameChange e"
  by (simp add: endsInNameChange_def list_all_iff)

text \<open>
  Claim C4 (last write wins). Whenever \<^verbatim>\<open>Apply\<close> returns, it has made its one
  \<^verbatim>\<open>BulkSQL\<close> call with one update per session, in iteration order, and the update of
  a session pairs the session's contact id with the \<^verbatim>\<open>Name\<close> of the last event of
  its sequence. It does return when every sequence is non-empty and ends in a name-change
  event. In particular the events named A and then B of one session give the single update
  that carries the name B.
\<close>

theorem Apply_last_write_wins:
  "((\<exists>r. Apply bulkSQL tx rp org sessions = Inr r) \<longrightarrow>
      (\<exists>updates.
         (\<forall>b t. Apply b t rp org sessions =
                  Inr (b ''updating contact name'' t updateContactNameSQL updates)) \<and>
         Apply recordBulkSQL [] rp org sessions =
           Inr (None, [(''updating contact name'', updateContactNameSQL, updates)]) \<and>
         length updates = length sessions \<and>
         (\<forall>i < length sessions. \<exists>event.
            snd (sessions ! i) \<noteq> [] \<and>
            last (snd (sessions ! i)) = ContactNameChangedEventPtr event \<and>
            updates ! i = nameUpdate (ContactID (fst (sessions ! i))) (Name event)))) \<and>
   ((\<forall>se \<in> set sessions. snd se \<noteq> [] \<and> isContactNameChanged (last (snd se))) \<longrightarrow>
      (\<exists>r. Apply bulkSQL tx rp org sessions = Inr r)) \<and>
   Apply bulkSQL tx rp org [(s, [nameChange ''A'', nameChange ''B''])] =
     Inr (bulkSQL ''updating contact name'' tx updateContactNameSQL [nameUpdate (ContactID s) ''B''])"
proof (intro conjI impI)
  assume "\<exists>r. Apply bulkSQL tx rp org sessions = Inr r"
  then have wf: "\<forall>se \<in> set sessions. endsInNameChange (snd se)"
    by (simp only: Apply_returns_iff)
  have each: "\<exists>event. snd (sessions ! i) \<noteq> [] \<and>
      last (snd (sessions ! i)) = ContactNameChangedEventPtr event \<and>
      map lastNameUpdate sessions ! i = nameUpdate (ContactID (fst (sessions ! i))) (Name event)"
    if i: "i < length sessions" for i
  proof -
    from wf i have e: "endsInNameChange (snd (sessions ! i))" by simp
    from lastNameUpdate_event [OF e, of "fst (sessions ! i)"] e i
    show ?thesis by (auto simp: endsInNameChange_def)
  qed
  show "\<exists>updates.
         (\<forall>b t. Apply b t rp org sessions =
                  Inr (b ''updating contact name'' t updateContactNameSQL updates)) \<and>
         Apply recordBulkSQL [] rp org sessions =
           Inr (None, [(''updating contact name'', updateContactNameSQL, updates)]) \<and>
         length updates = length sessions \<and>
         (\<forall>i < length sessions. \<exists>event.
            snd (sessions ! i) \<noteq> [] \<and>
            last (snd (sessions ! i)) = ContactNameChangedEventPtr event \<and>
            updates ! i = nameUpdate (ContactID (fst (sessions ! i))) (Name event))"
    using each
    by (intro exI [of _ "map lastNameUpdate sessions"])
      (simp add: Apply_returns [OF wf] recordBulkSQL_def)
next
  assume "\<forall>se \<in> set sessions. snd se \<noteq> [] \<and> isContactNameChanged (last (snd se))"
  then show "\<exists>r. Apply bulkSQL tx rp org sessions = Inr r"
    unfolding Apply_returns_iff by (simp add: endsInNameChange_def)
next
  show "Apply bulkSQL tx rp org [(s, [nameChange ''A'', nameChange ''B''])] =
     Inr (bulkSQL ''updating contact name'' tx updateContactNameSQL [nameUpdate (ContactID s) ''B''])"
    by (simp add: Apply_def go_index_def nameChange_def int64_def)
qed

theorem Apply_last_write_wins_witness:
  "list_all (\<lambda>se. snd se \<noteq> [] \<and> isContactNameChanged (last (snd se)))
     [(session1, [nameChange ''A'', nameChange ''B'']), (session2, [nameChange ''C''])] \<and>
   Apply recordBulkSQL [] () () [(session1, [nameChange ''A'', nameChange ''B'']), (session2, [nameChange ''C''])] =
     Inr (None, [(''updating contact name'', updateContactNameSQL, [nameUpdate 10 ''B'', nameUpdate 20 ''C''])])"
  using Apply_last_write_wins [of recordBulkSQL "[]" "()" "()"
      "[(session1, [nameChange ''A'', nameChange ''B'']), (session2, [nameChange ''C''])]" session1]
  by (simp add: Apply_def go_index_def nameChange_def int64_def recordBulkSQL_def session1_def session2_def)

text \<open>
  Claim C5 (single bulk statement), as amended: when every session's sequence is non-empty
  and ends in a name-change event, \<^verbatim>\<open>Apply\<close> makes exactly one
  \<^verbatim>\<open>BulkSQL\<close> call, with the statement \<^verbatim>\<open>updateContactNameSQL\<close> and one
  update row per session, however many sessions there are. On the recording transaction the
  calls afterwards are the calls before and this one call.
\<close>

theorem Apply_single_bulk_statement:
  assumes "\<forall>se \<in> set sessions. snd se \<noteq> [] \<and> isContactNameChanged (last (snd se))"
  shows "\<exists>updates.
           length updates = length sessions \<and>
           Apply bulkSQL tx rp org sessions =
             Inr (bulkSQL ''updating contact name'' tx updateContactNameSQL updates) \<and>
           Apply recordBulkSQL calls rp org sessions =
             Inr (None, calls @ [(''updating contact name'', updateContactNameSQL, updates)])"
proof -
  from assms have wf: "\<forall>se \<in> set sessions. endsInNameChange (snd se)"
    by (simp add: endsInNameChange_def)
  show ?thesis
    by (intro exI [of _ "map lastNameUpdate sessions"])
      (simp add: Apply_returns [OF wf] recordBulkSQL_def)
qed

theorem Apply_single_bulk_statement_witness:
  "list_all (\<lambda>se. snd se \<noteq> [] \<and> isContactNameChanged (last (snd se)))
     [(session1, [nameChange ''A'']), (session2, [nameChange ''B''])] \<and>
   (\<exists>updates. length updates = 2 \<and>
      Apply recordBulkSQL [] () () [(session1, [nameChange ''A'']), (session2, [nameChange ''B''])] =
        Inr (None, [(''updating contact name'', updateContactNameSQL, updates)]))"
proof -
  have h: "\<forall>se \<in> set [(session1, [nameChange ''A'']), (session2, [nameChange ''B''])].
      snd se \<noteq> [] \<and> isContactNameChanged (last (snd se))"
    by (simp add: nameChange_def)
  from Apply_single_bulk_statement [OF h, of recordBulkSQL "[]" "()" "()" "[]"]
  obtain updates where
    "length updates = length [(session1, [nameChange ''A'']), (session2, [nameChange ''B''])]"
    and "Apply recordBulkSQL [] () () [(session1, [nameChange ''A'']), (session2, [nameChange ''B''])] =
      Inr (None, [] @ [(''updating contact name'', updateContactNameSQL, updates)])"
    by blast
  then have "\<exists>updates. length updates = 2 \<and>
      Apply recordBulkSQL [] () () [(session1, [nameChange ''A'']), (session2, [nameChange ''B''])] =
        Inr (None, [(''updating contact name'', updateContactNameSQL, updates)])"
    by (intro exI [of _ updates]) simp
  with h show ?thesis by simp
qed

text \<open>
  The claim as written, for every non-empty mapping, fails on a mapping whose session has an
  empty sequence: \<^verbatim>\<open>Apply\<close> panics before it reaches \<^verbatim>\<open>BulkSQL\<close>.
\<close>

theorem Apply_single_bulk_statement_counterexample:
  "[(session1, [])] \<noteq> [] \<and>
   Apply recordBulkSQL [] () () [(session1, [])] = Inl IndexOutOfRange \<and>
   \<not> (\<exists>call. Apply recordBulkSQL [] () () [(session1, [])] = Inr (None, [call]))"
  by (simp add: Apply_def go_index_def)

text \<open>
  Claim C7 (deterministic reduction). Two iteration orders of the same mapping, every
  sequence non-empty and of name-change events, lead to \<^verbatim>\<open>BulkSQL\<close> calls with the
  same set of update pairs: the set of the sessions' last-event updates, which depends on
  the mapping alone.
\<close>

theorem Apply_deterministic_reduction:
  assumes "mset sessions' = mset sessions"
    and "\<forall>se \<in> set sessions. snd se \<noteq> [] \<and> list_all isContactNameChanged (snd se)"
  shows "\<exists>updates updates'.
           Apply recordBulkSQL calls rp org sessions =
             Inr (None, calls @ [(''updating contact name'', updateContactNameSQL, updates)]) \<and>
           Apply recordBulkSQL calls rp org sessions' =
             Inr (None, calls @ [(''updating contact name'', updateContactNameSQL, updates')]) \<and>
           set updates = set updates' \<and>
           set updates = lastNameUpdate ` set sessions"
proof -
  from assms(2) have wf: "\<forall>se \<in> set sessions. endsInNameChange (snd se)"
    by (simp add: last_of_all_name_changes)
  from assms(1) have same: "set sessions' = set sessions"
    by (rule mset_eq_setD)
  with wf have wf': "\<forall>se \<in> set sessions'. endsInNameChange (snd se)"
    by simp
  show ?thesis
    by (intro exI [of _ "map lastNameUpdate sessions"] exI [of _ "map lastNameUpdate sessions'"])
      (simp add: Apply_returns [OF wf] Apply_returns [OF wf'] recordBulkSQL_def same)
qed

theorem Apply_deterministic_reduction_witness:
  "mset [(session2, [nameChange ''B'']), (session1, [nameChange ''X'', nameChange ''A''])] =
     mset [(session1, [nameChange ''X'', nameChange ''A'']), (session2, [nameChange ''B''])] \<and>
   list_all (\<lambda>se. snd se \<noteq> [] \<and> list_all isContactNameChanged (snd se))
     [(session1, [nameChange ''X'', nameChange ''A'']), (session2, [nameChange ''B''])] \<and>
   (\<exists>updates updates'.
      Apply recordBulkSQL [] () () [(session1, [nameChange ''X'', nameChange ''A'']), (session2, [nameChange ''B''])] =
        Inr (None, [(''updating contact name'', updateContactNameSQL, updates)]) \<and>
      Apply recordBulkSQL [] () () [(session2, [nameChange ''B'']), (session1, [nameChange ''X'', nameChange ''A''])] =
        Inr (None, [(''updating contact name'', updateContactNameSQL, updates')]) \<and>
      set updates = set updates' \<and>
      set updates = {nameUpdate 10 ''A'', nameUpdate 20 ''B''})"
proof -
  have m: "mset [(session2, [nameChange ''B'']), (session1, [nameChange ''X'', nameChange ''A''])] =
     mset [(session1, [nameChange ''X'', nameChange ''A'']), (session2, [nameChange ''B''])]"
    by (simp add: add.commute)
  have a: "\<forall>se \<in> set [(session1, [nameChange ''X'', nameChange ''A'']), (session2, [nameChange ''B''])].
      snd se \<noteq> [] \<and> list_all isContactNameChanged (snd se)"
    by (simp add: nameChange_def)
  have l: "lastNameUpdate ` set [(session1, [nameChange ''X'', nameChange ''A'']), (session2, [nameChange ''B''])] =
      {nameUpdate 10 ''A'', nameUpdate 20 ''B''}"
    by (simp add: lastNameUpdate_def nameChange_def session1_def session2_def)
  show ?thesis
    using Apply_deterministic_reduction [OF m a, of "[]" "()" "()"] m a l
    by (simp add: nameChange_def)
qed









section \<open>Properties of the event handler and the queue\<close>

lemma preCommits_AddPreCommitEvent:
  "map_of (preCommits (AddPreCommitEvent s hook data)) =
     (map_of (preCommits s))(hook \<mapsto> queuedUnder s hook @ [data])"
  by (simp add: AddPreCommitEvent_def queuedUnder_def update_conv')

lemma queuedUnder_AddPreCommitEvent:
  "queuedUnder (AddPreCommitEvent s hook data) h =
     (if h = hook then queuedUnder s hook @ [data] else queuedUnder s h)"
  by (simp add: queuedUnder_def [of "AddPreCommitEvent s hook data"] preCommits_AddPreCommitEvent)
    (simp add: queuedUnder_def)

lemma identity_AddPreCommitEvent:
  "ID (AddPreCommitEvent s hook data) = ID s \<and>
   ContactID (AddPreCommitEvent s hook data) = ContactID s \<and>
   ContactUUID (AddPreCommitEvent s hook data) = ContactUUID s"
  by (simp add: AddPreCommitEvent_def)

lemma wellFormed_AddPreCommitEvent:
  "wellFormedSession s \<Longrightarrow> wellFormedSession (AddPreCommitEvent s hook data)"
  by (simp add: wellFormedSession_def AddPreCommitEvent_def distinct_update)

lemma queuedHooks_AddPreCommitEvent:
  "queuedHooks (AddPreCommitEvent s hook data) = insert hook (queuedHooks s)"
  by (simp add: queuedHooks_def AddPreCommitEvent_def dom_update)

text \<open>
  Claim C6 (the handler defers and leaves the transaction untouched). For every name-change
  event the handler returns \<^verbatim>\<open>nil\<close>; the transaction and the cache pool come back
  as they were passed in; the session keeps its identity, has the event appended to the
  sequence queued under \<^verbatim>\<open>commitContactNameChanges\<close>, and keeps the entry of every
  other hook. The debug line is the handler's only output.
\<close>

theorem applyContactNameChanged_defers:
  "\<exists>session'.
     applyContactNameChanged tx rp session (ContactNameChangedEventPtr event) logged =
       Inr (None, tx, rp, session',
            logged @ [\<lparr>contact_uuid = ContactUUID session, session_id = ID session,
                        name_field = Name event, message = ''changing contact name''\<rparr>]) \<and>
     ID session' = ID session \<and> ContactID session' = ContactID session \<and>
     ContactUUID session' = ContactUUID session \<and>
     queuedUnder session' commitContactNameChanges =
       queuedUnder session commitContactNameChanges @ [ContactNameChangedEventPtr event] \<and>
     (\<forall>hook. hook \<noteq> commitContactNameChanges \<longrightarrow>
        map_of (preCommits session') hook = map_of (preCommits session) hook)"
  by (intro exI [of _ "AddPreCommitEvent session commitContactNameChanges (ContactNameChangedEventPtr event)"])
    (simp add: applyContactNameChanged_def identity_AddPreCommitEvent queuedUnder_AddPreCommitEvent
      preCommits_AddPreCommitEvent)

theorem applyContactNameChanged_defers_witness:
  "\<exists>session'.
     applyContactNameChanged (0::nat) (1::nat) session1 (nameChange ''Bob'') [] =
       Inr (None, 0, 1, session',
            [\<lparr>contact_uuid = ''c10'', session_id = 1, name_field = ''Bob'',
              message = ''changing contact name''\<rparr>]) \<and>
     queuedUnder session' commitContactNameChanges = [nameChange ''Bob''] \<and>
     OtherHook ''h'' \<noteq> commitContactNameChanges \<and>
     map_of (preCommits session') (OtherHook ''h'') = map_of (preCommits session1) (OtherHook ''h'')"
proof -
  from applyContactNameChanged_defers [of 0 1 session1 "\<lparr>Name = ''Bob''\<rparr>" "[]"]
  obtain session' where
    run: "applyContactNameChanged (0::nat) (1::nat) session1 (ContactNameChangedEventPtr \<lparr>Name = ''Bob''\<rparr>) [] =
       Inr (None, 0, 1, session',
            [] @ [\<lparr>contact_uuid = ContactUUID session1, session_id = ID session1,
                    name_field = Name \<lparr>Name = ''Bob''\<rparr>, message = ''changing contact name''\<rparr>])"
    and queue: "queuedUnder session' commitContactNameChanges =
       queuedUnder session1 commitContactNameChanges @ [ContactNameChangedEventPtr \<lparr>Name = ''Bob''\<rparr>]"
    and frame: "\<forall>hook. hook \<noteq> commitContactNameChanges \<longrightarrow>
        map_of (preCommits session') hook = map_of (preCommits session1) hook"
    by blast
  have other: "OtherHook ''h'' \<noteq> commitContactNameChanges"
    by (simp add: commitContactNameChanges_def)
  show ?thesis
    using run queue frame other
    by (intro exI [of _ session']) (simp add: nameChange_def session1_def queuedUnder_def)
qed

lemma queuedUnder_queueAll:
  "queuedUnder (queueAll s evs) hook = queuedUnder s hook @ submittedUnder hook evs"
proof (induction evs arbitrary: s)
  case Nil
  then show ?case by (simp add: queueAll_def submittedUnder_def)
next
  case (Cons ev evs)
  have "queueAll s (ev # evs) = queueAll (AddPreCommitEvent s (fst ev) (snd ev)) evs"
    by (simp add: queueAll_def)
  then show ?case
    by (simp add: Cons.IH queuedUnder_AddPreCommitEvent submittedUnder_def)
qed

lemma wellFormed_queueAll:
  "wellFormedSession s \<Longrightarrow> wellFormedSession (queueAll s evs)"
proof (induction evs arbitrary: s)
  case Nil
  then show ?case by (simp add: queueAll_def)
next
  case (Cons ev evs)
  have "queueAll s (ev # evs) = queueAll (AddPreCommitEvent s (fst ev) (snd ev)) evs"
    by (simp add: queueAll_def)
  with Cons show ?case by (simp add: wellFormed_AddPreCommitEvent)
qed

lemma queuedHooks_queueAll:
  "queuedHooks (queueAll s evs) = queuedHooks s \<union> fst ` set evs"
proof (induction evs arbitrary: s)
  case Nil
  then show ?case by (simp add: queueAll_def)
next
  case (Cons ev evs)
  have "queueAll s (ev # evs) = queueAll (AddPreCommitEvent s (fst ev) (snd ev)) evs"
    by (simp add: queueAll_def)
  then show ?case by (simp add: Cons.IH queuedHooks_AddPreCommitEvent)
qed

lemma queuedHooks_iff: "hook \<in> queuedHooks s \<longleftrightarrow> map_of (preCommits s) hook \<noteq> None"
  by (simp add: queuedHooks_def map_of_eq_None_iff)

lemma submittedUnder_nonempty: "submittedUnder hook evs \<noteq> [] \<longleftrightarrow> hook \<in> fst ` set evs"
  by (auto simp: submittedUnder_def filter_empty_conv)


section \<open>Properties of the grouping\<close>


lemma groupedFor_groupEntry:
  "groupedFor (groupEntry s entry g) hook s' =
     (if hook = fst entry \<and> s' = s then Some (snd entry) else groupedFor g hook s')"
  by (simp add: groupedFor_def groupEntry_def update_conv' split: option.splits)




lemma fold_groupEntry:
  assumes "distinct (map fst pcs)"
  shows "groupedFor (fold (groupEntry s) pcs g) hook s' =
           (if s' = s \<and> hook \<in> fst ` set pcs then map_of pcs hook else groupedFor g hook s')"
  using assms
proof (induction pcs arbitrary: g)
  case Nil
  then show ?case by simp
next
  case (Cons entry pcs)
  from Cons.prems have d: "distinct (map fst pcs)" and fresh: "fst entry \<notin> fst ` set pcs"
    by simp_all
  have "groupedFor (fold (groupEntry s) (entry # pcs) g) hook s' =
      groupedFor (fold (groupEntry s) pcs (groupEntry s entry g)) hook s'"
    by simp
  also have "\<dots> = (if s' = s \<and> hook \<in> fst ` set pcs then map_of pcs hook
      else groupedFor (groupEntry s entry g) hook s')"
    by (rule Cons.IH [OF d])
  also have "\<dots> = (if s' = s \<and> hook \<in> fst ` set (entry # pcs) then map_of (entry # pcs) hook
      else groupedFor g hook s')"
    using fresh by (cases entry) (auto simp: groupedFor_groupEntry)
  finally show ?case .
qed



lemma groupedFor_groupSession:
  "wellFormedSession s \<Longrightarrow>
     groupedFor (groupSession s g) hook s' =
       (if s' = s \<and> hook \<in> queuedHooks s then map_of (preCommits s) hook else groupedFor g hook s')"
  by (simp add: groupSession_def PreCommitEvents_def wellFormedSession_def queuedHooks_def fold_groupEntry)



lemma fold_groupSession:
  assumes "\<forall>s \<in> set sessions. wellFormedSession s"
  shows "groupedFor (fold groupSession sessions g) hook s' =
           (if s' \<in> set sessions \<and> hook \<in> queuedHooks s' then map_of (preCommits s') hook
            else groupedFor g hook s')"
  using assms
proof (induction sessions arbitrary: g)
  case Nil
  then show ?case by simp
next
  case (Cons s sessions)
  from Cons.prems have wf: "wellFormedSession s" and rest: "\<forall>x \<in> set sessions. wellFormedSession x"
    by simp_all
  have "groupedFor (fold groupSession (s # sessions) g) hook s' =
      groupedFor (fold groupSession sessions (groupSession s g)) hook s'"
    by simp
  also have "\<dots> = (if s' \<in> set sessions \<and> hook \<in> queuedHooks s' then map_of (preCommits s') hook
      else groupedFor (groupSession s g) hook s')"
    by (rule Cons.IH [OF rest])
  also have "\<dots> = (if s' \<in> set (s # sessions) \<and> hook \<in> queuedHooks s' then map_of (preCommits s') hook
      else groupedFor g hook s')"
    by (auto simp: groupedFor_groupSession [OF wf])
  finally show ?case .
qed



lemma groupedFor_Grouping:
  "\<forall>s \<in> set sessions. wellFormedSession s \<Longrightarrow>
     groupedFor (Grouping sessions) hook s =
       (if s \<in> set sessions \<and> hook \<in> queuedHooks s then map_of (preCommits s) hook else None)"
  by (simp add: Grouping_def fold_groupSession) (simp add: groupedFor_def)



lemma applyHooks_recordApply:
  "applyHooks recordApply g calls = (None, calls @ g)"
  by (induction g arbitrary: calls) (auto simp: recordApply_def)


lemma map_of_preCommits_queued:
  "hook \<in> queuedHooks s \<Longrightarrow> map_of (preCommits s) hook = Some (queuedUnder s hook)"
  by (auto simp: queuedHooks_iff queuedUnder_def)




text \<open>
  Claim C3 (order within a session and hook). A fresh session queues the pairs \<open>evs\<close>
  through \<^verbatim>\<open>AddPreCommitEvent\<close>, in this order, with other hooks interleaved at
  will. The sequence it then holds under a hook, and the sequence the hook's invocation
  receives for the session, is the list of the data submitted under that hook in their
  submission order.
\<close>

theorem per_session_order_preserved:
  assumes "preCommits s0 = []"
    and "submittedUnder hook evs \<noteq> []"
    and "queueAll s0 evs \<in> set sessions"
    and "\<forall>s \<in> set sessions. wellFormedSession s"
  shows "map_of (PreCommitEvents (queueAll s0 evs)) hook = Some (submittedUnder hook evs) \<and>
         (\<exists>args. (hook, args) \<in> set (snd (applyHooks recordApply (Grouping sessions) [])) \<and>
                 map_of args (queueAll s0 evs) = Some (submittedUnder hook evs))"
proof -
  let ?s = "queueAll s0 evs"
  have q: "queuedUnder ?s hook = submittedUnder hook evs"
    using assms(1) by (simp add: queuedUnder_queueAll) (simp add: queuedUnder_def)
  have h: "hook \<in> queuedHooks ?s"
    using assms(2) by (simp add: queuedHooks_queueAll submittedUnder_nonempty)
  have pc: "map_of (preCommits ?s) hook = Some (submittedUnder hook evs)"
    using map_of_preCommits_queued [OF h] q by simp
  have "groupedFor (Grouping sessions) hook ?s = Some (submittedUnder hook evs)"
    using assms(3) h pc by (simp add: groupedFor_Grouping [OF assms(4)])
  then obtain args where
    "map_of (Grouping sessions) hook = Some args"
    and args: "map_of args ?s = Some (submittedUnder hook evs)"
    by (auto simp: groupedFor_def split: option.splits)
  then have "(hook, args) \<in> set (Grouping sessions)"
    by (simp add: map_of_SomeD)
  with args pc show ?thesis
    by (auto simp: applyHooks_recordApply PreCommitEvents_def)
qed

theorem per_session_order_preserved_witness:
  "preCommits session1 = [] \<and>
   submittedUnder commitContactNameChanges
     [(commitContactNameChanges, nameChange ''A''), (OtherHook ''H2'', OtherValue ''x''),
      (commitContactNameChanges, nameChange ''B'')] = [nameChange ''A'', nameChange ''B''] \<and>
   queueAll session1
     [(commitContactNameChanges, nameChange ''A''), (OtherHook ''H2'', OtherValue ''x''),
      (commitContactNameChanges, nameChange ''B'')] = sessionA \<and>
   list_all wellFormedSession [sessionA, sessionB] \<and>
   (\<exists>args. (commitContactNameChanges, args) \<in> set (snd (applyHooks recordApply (Grouping [sessionA, sessionB]) [])) \<and>
      map_of args sessionA = Some [nameChange ''A'', nameChange ''B''])"
proof -
  let ?evs = "[(commitContactNameChanges, nameChange ''A''), (OtherHook ''H2'', OtherValue ''x''),
      (commitContactNameChanges, nameChange ''B'')]"
  have fresh: "preCommits session1 = []" by (simp add: session1_def)
  have sub: "submittedUnder commitContactNameChanges ?evs = [nameChange ''A'', nameChange ''B'']"
    by (simp add: submittedUnder_def commitContactNameChanges_def)
  have q: "queueAll session1 ?evs = sessionA"
    by (simp add: queueAll_def AddPreCommitEvent_def sessionA_def session1_def commitContactNameChanges_def)
  have wf: "\<forall>s \<in> set [sessionA, sessionB]. wellFormedSession s"
    by (simp add: wellFormedSession_def sessionA_def sessionB_def commitContactNameChanges_def)
  have ne: "submittedUnder commitContactNameChanges ?evs \<noteq> []" by (simp add: sub)
  have mem: "queueAll session1 ?evs \<in> set [sessionA, sessionB]" by (simp add: q)
  show ?thesis
    using per_session_order_preserved [OF fresh ne mem wf] fresh sub q wf by simp
qed


section \<open>Properties of the batch committer\<close>

lemma applyHooks_committed:
  "applyHooks hookApply g tx = (None, tx') \<Longrightarrow> allHooksApplied hookApply g tx tx'"
proof (induction g arbitrary: tx)
  case Nil
  then show ?case by (simp add: allHooksApplied_Nil)
next
  case (Cons call g)
  obtain hook args where call: "call = (hook, args)" by (cases call)
  obtain err t where step: "hookApply hook tx args = (err, t)" by (cases "hookApply hook tx args")
  show ?case
  proof (cases err)
    case None
    with Cons.prems step have "applyHooks hookApply g t = (None, tx')"
      by (simp add: call)
    then have "allHooksApplied hookApply g t tx'" by (rule Cons.IH)
    with step None show ?thesis
      unfolding call by (intro allHooksApplied_Cons [where tx' = t]) simp_all
  next
    case (Some e)
    with Cons.prems step show ?thesis by (simp add: call)
  qed
qed

lemma allHooksApplied_applyHooks:
  "allHooksApplied hookApply g tx tx' \<Longrightarrow> applyHooks hookApply g tx = (None, tx')"
  by (induction rule: allHooksApplied.induct) simp_all

text \<open>
  Claim C1 (batch atomicity). \<^verbatim>\<open>ProcessBatch\<close> ends in one of two ways. Either it
  returns no error, and then every hook of the grouping was applied with success, one after
  the other, on the transaction the dispatching left, and the store afterwards is the
  transaction after the last hook. Or it returns an error, and then the store afterwards is
  the store before: no effect of a handler or a hook of the batch remains.
\<close>

theorem ProcessBatch_atomic:
  "(\<exists>tx sessions tx'.
      dispatchAll registry db batch = (None, tx, sessions) \<and>
      allHooksApplied hookApply (Grouping sessions) tx tx' \<and>
      ProcessBatch registry hookApply db batch = (None, tx')) \<or>
   (\<exists>err. ProcessBatch registry hookApply db batch = (Some err, db))"
proof -
  obtain derr tx sessions where d: "dispatchAll registry db batch = (derr, tx, sessions)"
    by (cases "dispatchAll registry db batch")
  obtain herr tx' where h: "applyHooks hookApply (Grouping sessions) tx = (herr, tx')"
    by (cases "applyHooks hookApply (Grouping sessions) tx")
  show ?thesis
  proof (cases derr)
    case (Some e)
    with d show ?thesis by (simp add: ProcessBatch_def)
  next
    case None
    show ?thesis
    proof (cases herr)
      case (Some e)
      with d h None show ?thesis by (simp add: ProcessBatch_def)
    next
      case hNone: None
      from h hNone have "allHooksApplied hookApply (Grouping sessions) tx tx'"
        by (simp add: applyHooks_committed)
      moreover from d h None hNone have "ProcessBatch registry hookApply db batch = (None, tx')"
        by (simp add: ProcessBatch_def)
      ultimately show ?thesis using d None by blast
    qed
  qed
qed

text \<open>
  Both endings occur. With the two example sessions the second hook fails after the first
  one has written, and the store is as before; with the second session alone the batch is
  committed.
\<close>

theorem ProcessBatch_atomic_witness:
  "ProcessBatch emptyRegistry exampleApply [''initial''] [(sessionA, []), (sessionB, [])] =
     (Some ''constraint violation'', [''initial'']) \<and>
   ProcessBatch emptyRegistry exampleApply [''initial''] [(sessionB, [])] =
     (None, [''initial'', ''names updated''])"
proof -
  have ne: "sessionA \<noteq> sessionB"
    by (simp add: sessionA_def sessionB_def session1_def session2_def)
  have a: "preCommits sessionA =
      [(commitContactNameChanges, [nameChange ''A'', nameChange ''B'']), (OtherHook ''H2'', [OtherValue ''x''])]"
    by (simp add: sessionA_def)
  have b: "preCommits sessionB = [(commitContactNameChanges, [nameChange ''C''])]"
    by (simp add: sessionB_def)
  have g2: "Grouping [sessionA, sessionB] =
      [(commitContactNameChanges,
          [(sessionA, [nameChange ''A'', nameChange ''B'']), (sessionB, [nameChange ''C''])]),
       (OtherHook ''H2'', [(sessionA, [OtherValue ''x''])])]"
    using ne by (simp add: Grouping_def groupSession_def PreCommitEvents_def groupEntry_def a b
        commitContactNameChanges_def)
  have g1: "Grouping [sessionB] = [(commitContactNameChanges, [(sessionB, [nameChange ''C''])])]"
    by (simp add: Grouping_def groupSession_def PreCommitEvents_def groupEntry_def b)
  show ?thesis
    using ProcessBatch_atomic [of emptyRegistry "[''initial'']" "[(sessionA, []), (sessionB, [])]" exampleApply]
    by (simp add: ProcessBatch_def g1 g2 exampleApply_def commitContactNameChanges_def)
qed

section \<open>Properties of the bulk statement\<close>







end
